theory Spec2Isabelle
  imports Main
begin

section \<open>Configuration values\<close>

text \<open>
  The sidebar configuration \<^verbatim>\<open>docs/sidebars.js\<close> is a JavaScript literal built from
  strings, arrays and object literals. A configuration value is modelled as a tree:
  an object literal is the list of its key/value pairs in source order, an array is the
  list of its entries. The remaining constructors stand for the other scalars a
  configuration source may hold.
\<close>

datatype raw =
    RStr string
  | RNum int
  | RBool bool
  | RNull
  | RSeq "raw list"
  | RMap "(string \<times> raw) list"

text \<open>
  The value of the \<^verbatim>\<open>someSidebar\<close> key of \<^verbatim>\<open>module.exports\<close>, entry by entry as in
  the source file (the inline comment after the label \<^verbatim>\<open>Architecture\<close> carries no data).
\<close>

definition someSidebar :: raw where
  "someSidebar =
  RSeq [
    RMap [
      (''type'', RStr ''category''),
      (''label'', RStr ''Getting Started''),
      (''items'', RSeq [
        RStr ''index'',
        RStr ''prototype-an-assistant'',
        RStr ''installation'',
        RStr ''cheatsheet'',
        RStr ''migrate-from''])],
    RMap [
      (''type'', RStr ''category''),
      (''label'', RStr ''NLU''),
      (''items'', RSeq [
        RStr ''training-data-format'',
        RMap [
          (''type'', RStr ''category''),
          (''label'', RStr ''Components''),
          (''items'', RSeq [
            RStr ''components/language-models'',
            RStr ''components/tokenizers'',
            RStr ''components/featurizers'',
            RStr ''components/intent-classifiers'',
            RStr ''components/entity-extractors'',
            RStr ''components/selectors'',
            RStr ''components/custom-nlu-components''])]])],
    RMap [
      (''type'', RStr ''category''),
      (''label'', RStr ''Dialogue Management''),
      (''items'', RSeq [
        RStr ''stories'',
        RStr ''domains'',
        RMap [
          (''type'', RStr ''category''),
          (''label'', RStr ''Policies''),
          (''items'', RSeq [
            RStr ''policies''])],
        RMap [
          (''type'', RStr ''category''),
          (''label'', RStr ''Actions''),
          (''items'', RSeq [
            RStr ''retrieval-actions'',
            RStr ''forms'',
            RStr ''reminders-and-external-events''])],
        RMap [
          (''type'', RStr ''category''),
          (''label'', RStr ''Channel Connectors''),
          (''items'', RSeq [
            RStr ''connectors/your-own-website'',
            RStr ''connectors/facebook-messenger'',
            RStr ''connectors/slack'',
            RStr ''connectors/telegram'',
            RStr ''connectors/twilio'',
            RStr ''connectors/hangouts'',
            RStr ''connectors/microsoft-bot-framework'',
            RStr ''connectors/cisco-webex-teams'',
            RStr ''connectors/rocketchat'',
            RStr ''connectors/mattermost''])],
        RMap [
          (''type'', RStr ''category''),
          (''label'', RStr ''Architecture''),
          (''items'', RSeq [
            RStr ''tracker-stores'',
            RStr ''event-brokers'',
            RStr ''lock-stores'',
            RStr ''nlg'',
            RStr ''cloud-storage''])]])],
    RMap [
      (''type'', RStr ''category''),
      (''label'', RStr ''Rasa SDK''),
      (''items'', RSeq [
        RMap [
          (''type'', RStr ''category''),
          (''label'', RStr ''Custom Actions''),
          (''items'', RSeq [
            RStr ''actions'',
            RStr ''knowledge-bases''])],
        RStr ''tracker'',
        RStr ''events'',
        RMap [
          (''type'', RStr ''category''),
          (''label'', RStr ''Reference''),
          (''items'', RSeq [
            RStr ''action-server''])]])],
    RMap [
      (''type'', RStr ''category''),
      (''label'', RStr ''Reference''),
      (''items'', RSeq [
        RStr ''architecture'',
        RStr ''command-line-interface'',
        RStr ''http-api'',
        RMap [
          (''type'', RStr ''category''),
          (''label'', RStr ''Versioning''),
          (''items'', RSeq [
            RStr ''changelog'',
            RStr ''migration-guide''])]])],
    RMap [
      (''type'', RStr ''category''),
      (''label'', RStr ''Old Content''),
      (''items'', RSeq [
        RStr ''building-assistants'',
        RStr ''messaging-and-voice-channels'',
        RStr ''testing-your-assistant'',
        RStr ''setting-up-ci-cd'',
        RStr ''validate-files'',
        RStr ''configuring-http-api'',
        RStr ''how-to-deploy'',
        RStr ''about-nlu'',
        RStr ''using-nlu-only'',
        RStr ''language-support'',
        RStr ''choosing-a-pipeline'',
        RStr ''entity-extraction'',
        RStr ''about-core'',
        RStr ''responses'',
        RStr ''slots'',
        RStr ''interactive-learning'',
        RStr ''fallback-actions'',
        RStr ''jupyter-notebooks'',
        RStr ''agent'',
        RStr ''rasa-sdk'',
        RStr ''training-data-importers'',
        RStr ''core-featurization'',
        RStr ''tensorflow_usage'',
        RStr ''glossary''])]]"

definition module_exports :: raw where
  "module_exports = RMap [(''someSidebar'', someSidebar)]"

subsection \<open>Reading the configuration\<close>

text \<open>
  The value of a key of an object literal. A key written more than once holds the value
  written last, as in JavaScript.
\<close>

definition field :: "(string \<times> raw) list \<Rightarrow> string \<Rightarrow> raw option" where
  "field kvs k = map_of (rev kvs) k"

lemma field_Nil [simp]: "field [] k = None"
  by (simp add: field_def)

lemma field_Cons [simp]:
  "field ((k', v) # kvs) k =
     (case field kvs k of Some x \<Rightarrow> Some x | None \<Rightarrow> if k' = k then Some v else None)"
  by (simp add: field_def map_add_def split: option.splits)

lemma size_field: "field kvs k = Some v \<Longrightarrow> size v < size (RMap kvs)"
  by (induction kvs) (auto split: option.splits if_splits)

text \<open>The entries of the \<^verbatim>\<open>items\<close> array of an object literal, when it has one.\<close>

definition items_of :: "(string \<times> raw) list \<Rightarrow> raw list option" where
  "items_of kvs = (case field kvs ''items'' of Some (RSeq xs) \<Rightarrow> Some xs | _ \<Rightarrow> None)"

lemma items_of_size:
  "items_of kvs = Some xs \<Longrightarrow> size_list size xs < size (RMap kvs)"
proof -
  assume "items_of kvs = Some xs"
  then have "field kvs ''items'' = Some (RSeq xs)"
    by (auto simp: items_of_def split: option.splits raw.splits)
  from size_field [OF this] show ?thesis by simp
qed

lemma items_of_size_elem:
  "items_of kvs = Some xs \<Longrightarrow> x \<in> set xs \<Longrightarrow> size x < size (RMap kvs)"
  using items_of_size [of kvs xs] size_list_estimation' [of x xs "size x" size]
  by simp

text \<open>An object literal carries the discriminator when its \<^verbatim>\<open>type\<close> key holds the
  string \<^verbatim>\<open>category\<close>.\<close>

definition has_discriminator :: "(string \<times> raw) list \<Rightarrow> bool" where
  "has_discriminator kvs \<longleftrightarrow> field kvs ''type'' = Some (RStr ''category'')"

text \<open>The string held by the \<^verbatim>\<open>label\<close> key of an object literal, when there is one.\<close>

definition label_of :: "(string \<times> raw) list \<Rightarrow> string option" where
  "label_of kvs = (case field kvs ''label'' of Some (RStr l) \<Rightarrow> Some l | _ \<Rightarrow> None)"

subsection \<open>Paths\<close>

text \<open>
  A path is the sequence of indices and keys from the root to a node: \<^verbatim>\<open>root[2].items[0]\<close>
  is \<open>[Idx 2, Key ''items'', Idx 0]\<close>, and the empty path is the root itself.
\<close>

datatype seg = Idx nat | Key string

type_synonym path = "seg list"

text \<open>
  The order of a depth-first, left-to-right traversal on paths: a node comes before the
  nodes below it, and the entry at index \<open>i\<close> of a sequence, with all below it, comes
  before the entry at a higher index.
\<close>

fun seg_less :: "seg \<Rightarrow> seg \<Rightarrow> bool" where
  "seg_less (Idx i) (Idx j) = (i < j)"
| "seg_less s s' = False"

fun path_less :: "path \<Rightarrow> path \<Rightarrow> bool" where
  "path_less [] [] = False"
| "path_less [] (s # q) = True"
| "path_less (s # p) [] = False"
| "path_less (s # p) (s' # q) = (seg_less s s' \<or> (s = s' \<and> path_less p q))"

definition path_le :: "path \<Rightarrow> path \<Rightarrow> bool" where
  "path_le p q \<longleftrightarrow> p = q \<or> path_less p q"

text \<open>
  Every leaf string of a configuration tree with the path where it stands, in source
  order (depth first, left to right). The entries of the root sequence are \<open>root[i]\<close>,
  the entries of a category at \<open>p\<close> are \<open>p.items[i]\<close>.
\<close>

function leaves_node :: "path \<Rightarrow> raw \<Rightarrow> (string \<times> path) list"
  and leaves_items :: "path \<Rightarrow> nat \<Rightarrow> raw list \<Rightarrow> (string \<times> path) list"
where
  "leaves_node p (RStr s) = [(s, p)]"
| "leaves_node p (RMap kvs) =
     (case items_of kvs of
        Some xs \<Rightarrow> leaves_items (p @ [Key ''items'']) 0 xs
      | None \<Rightarrow> [])"
| "leaves_node p (RSeq xs) = []"
| "leaves_node p (RNum n) = []"
| "leaves_node p (RBool b) = []"
| "leaves_node p RNull = []"
| "leaves_items p i [] = []"
| "leaves_items p i (x # xs) = leaves_node (p @ [Idx i]) x @ leaves_items p (Suc i) xs"
  by pat_completeness auto
termination
  by (relation "measure (\<lambda>a. case a of Inl (p, r) \<Rightarrow> 2 * size r
                                   | Inr (p, i, xs) \<Rightarrow> 2 * size_list size xs + 1)")
     (auto dest: items_of_size)

definition leaf_paths :: "raw \<Rightarrow> (string \<times> path) list" where
  "leaf_paths r = (case r of RSeq xs \<Rightarrow> leaves_items [] 0 xs | _ \<Rightarrow> [])"

definition leaf_ids :: "raw \<Rightarrow> string list" where
  "leaf_ids r = map fst (leaf_paths r)"

text \<open>
  A well-formed node is a non-empty string, or an object literal with the discriminator,
  a non-empty label string and an \<^verbatim>\<open>items\<close> array of well-formed nodes.
\<close>

function well_formed_node :: "raw \<Rightarrow> bool" where
  "well_formed_node (RStr s) = (s \<noteq> [])"
| "well_formed_node (RMap kvs) =
     (has_discriminator kvs
      \<and> (case label_of kvs of Some l \<Rightarrow> l \<noteq> [] | None \<Rightarrow> False)
      \<and> (case items_of kvs of Some xs \<Rightarrow> list_all well_formed_node xs | None \<Rightarrow> False))"
| "well_formed_node (RSeq xs) = False"
| "well_formed_node (RNum n) = False"
| "well_formed_node (RBool b) = False"
| "well_formed_node RNull = False"
  by pat_completeness auto
termination
  by (relation "measure size")
     (auto simp: size_list_estimation' less_Suc_eq_le dest: items_of_size_elem)

definition well_formed :: "raw \<Rightarrow> bool" where
  "well_formed r = (case r of RSeq xs \<Rightarrow> list_all well_formed_node xs | _ \<Rightarrow> False)"

text \<open>Every object literal in the tree has an \<^verbatim>\<open>items\<close> array with at least one entry.\<close>

function categories_nonempty :: "raw \<Rightarrow> bool" where
  "categories_nonempty (RStr s) = True"
| "categories_nonempty (RSeq xs) = list_all categories_nonempty xs"
| "categories_nonempty (RMap kvs) =
     (case items_of kvs of
        Some xs \<Rightarrow> xs \<noteq> [] \<and> list_all categories_nonempty xs
      | None \<Rightarrow> False)"
| "categories_nonempty (RNum n) = True"
| "categories_nonempty (RBool b) = True"
| "categories_nonempty RNull = True"
  by pat_completeness auto
termination
  by (relation "measure size")
     (auto simp: size_list_estimation' less_Suc_eq_le dest: items_of_size_elem)

text \<open>The number of object literals on the longest chain of nested ones.\<close>

function category_depth :: "raw \<Rightarrow> nat" where
  "category_depth (RStr s) = 0"
| "category_depth (RSeq xs) = foldr max (map category_depth xs) 0"
| "category_depth (RMap kvs) =
     (case items_of kvs of
        Some xs \<Rightarrow> Suc (foldr max (map category_depth xs) 0)
      | None \<Rightarrow> 1)"
| "category_depth (RNum n) = 0"
| "category_depth (RBool b) = 0"
| "category_depth RNull = 0"
  by pat_completeness auto
termination
  by (relation "measure size")
     (auto simp: size_list_estimation' less_Suc_eq_le dest: items_of_size_elem)

text \<open>
  The depth of every leaf string, in source order: the entries of the sequence at depth
  \<open>d\<close> are at depth \<open>d + 1\<close>, so the entries of the root sequence are at depth 1.
\<close>

function leaf_depths :: "nat \<Rightarrow> raw \<Rightarrow> nat list" where
  "leaf_depths d (RStr s) = [d]"
| "leaf_depths d (RSeq xs) = concat (map (leaf_depths (Suc d)) xs)"
| "leaf_depths d (RMap kvs) =
     (case items_of kvs of
        Some xs \<Rightarrow> concat (map (leaf_depths (Suc d)) xs)
      | None \<Rightarrow> [])"
| "leaf_depths d (RNum n) = []"
| "leaf_depths d (RBool b) = []"
| "leaf_depths d RNull = []"
  by pat_completeness auto
termination
  by (relation "measure (\<lambda>(d, r). size r)")
     (auto simp: size_list_estimation' less_Suc_eq_le dest: items_of_size_elem)

section \<open>The navigation tree validator\<close>

text \<open>
  Modelled from the spec: the repository ships the configuration only; the validator
  \<^verbatim>\<open>validate\<close>, its result types and its errors are described in the specification
  (sections 3, 4.1 and 7) and have no source file. The definitions of this section follow
  that description.
\<close>

text \<open>Modelled from the spec: \<^verbatim>\<open>NavigationNode\<close> (section 3), a leaf with its document id
  or a category with its label and its ordered items; the tree is the root sequence.\<close>

datatype NavigationNode = Leaf string | Category string "NavigationNode list"

type_synonym NavigationTree = "NavigationNode list"

text \<open>Modelled from the spec: the error taxonomy \<^verbatim>\<open>ValidationError\<close> (sections 4.1, 7),
  each structural error with the path of the offending node, a duplicate with the
  document id and every path where it occurs.\<close>

datatype ValidationError =
    MalformedNode path string
  | EmptyLabel path
  | InvalidItems path
  | EmptyDocumentId path
  | DuplicateDocumentId string "path list"

text \<open>The four structural variants, and the duplicate variant.\<close>

fun is_structural :: "ValidationError \<Rightarrow> bool" where
  "is_structural (DuplicateDocumentId d ps) = False"
| "is_structural e = True"

fun is_duplicate :: "ValidationError \<Rightarrow> bool" where
  "is_duplicate (DuplicateDocumentId d ps) = True"
| "is_duplicate e = False"

text \<open>The path an error points at; for a duplicate, the first of its paths.\<close>

fun error_path :: "ValidationError \<Rightarrow> path" where
  "error_path (MalformedNode p reason) = p"
| "error_path (EmptyLabel p) = p"
| "error_path (InvalidItems p) = p"
| "error_path (EmptyDocumentId p) = p"
| "error_path (DuplicateDocumentId d ps) = (case ps of [] \<Rightarrow> [] | p # qs \<Rightarrow> p)"

text \<open>Modelled from the spec: a mapping structurally contains a key.\<close>

definition has_key :: "(string \<times> raw) list \<Rightarrow> string \<Rightarrow> bool" where
  "has_key kvs k = (case field kvs k of Some v \<Rightarrow> True | None \<Rightarrow> False)"

text \<open>Modelled from the spec: the classification of a mapping as a category (section 4.1):
  it contains a \<^verbatim>\<open>type\<close> discriminator equal to \<^verbatim>\<open>category\<close>, or it structurally contains
  \<^verbatim>\<open>label\<close> and \<^verbatim>\<open>items\<close>.\<close>

definition is_category :: "(string \<times> raw) list \<Rightarrow> bool" where
  "is_category kvs \<longleftrightarrow>
     has_discriminator kvs \<or> (has_key kvs ''label'' \<and> has_key kvs ''items'')"

lemmas field_defs = has_discriminator_def label_of_def items_of_def has_key_def is_category_def

text \<open>Modelled from the spec: the \<^verbatim>\<open>reason\<close> field of \<^verbatim>\<open>MalformedNode\<close>; the specification
  fixes no wording, one fixed text is used.\<close>

definition malformed_reason :: string where
  "malformed_reason = ''expected a document id string or a category mapping''"

text \<open>
  Modelled from the spec: the recursive walk of \<^verbatim>\<open>validate\<close> (section 4.1), which is not
  in the source. A string is a leaf and must be non-empty; a mapping classified as a
  category must have a non-empty string label and a sequence of items, which are
  validated in order; any other shape is malformed. The checks of a node come before the
  walk of its items (label, then items), and the walk stops at the first error. The path
  of \<^verbatim>\<open>InvalidItems\<close> is the path of the category.
\<close>

function validate_node :: "path \<Rightarrow> raw \<Rightarrow> ValidationError + NavigationNode"
  and validate_items :: "path \<Rightarrow> nat \<Rightarrow> raw list \<Rightarrow> ValidationError + NavigationNode list"
where
  "validate_node p (RStr s) = (if s = [] then Inl (EmptyDocumentId p) else Inr (Leaf s))"
| "validate_node p (RMap kvs) =
     (if \<not> is_category kvs then Inl (MalformedNode p malformed_reason)
      else case label_of kvs of
        None \<Rightarrow> Inl (EmptyLabel p)
      | Some l \<Rightarrow>
          (if l = [] then Inl (EmptyLabel p)
           else (case items_of kvs of
                   None \<Rightarrow> Inl (InvalidItems p)
                 | Some xs \<Rightarrow>
                     (case validate_items (p @ [Key ''items'']) 0 xs of
                        Inl e \<Rightarrow> Inl e
                      | Inr ns \<Rightarrow> Inr (Category l ns)))))"
| "validate_node p (RSeq xs) = Inl (MalformedNode p malformed_reason)"
| "validate_node p (RNum n) = Inl (MalformedNode p malformed_reason)"
| "validate_node p (RBool b) = Inl (MalformedNode p malformed_reason)"
| "validate_node p RNull = Inl (MalformedNode p malformed_reason)"
| "validate_items p i [] = Inr []"
| "validate_items p i (x # xs) =
     (case validate_node (p @ [Idx i]) x of
        Inl e \<Rightarrow> Inl e
      | Inr n \<Rightarrow>
          (case validate_items p (Suc i) xs of
             Inl e \<Rightarrow> Inl e
           | Inr ns \<Rightarrow> Inr (n # ns)))"
  by pat_completeness auto
termination
  by (relation "measure (\<lambda>a. case a of Inl (p, r) \<Rightarrow> 2 * size r
                                   | Inr (p, i, xs) \<Rightarrow> 2 * size_list size xs + 1)")
     (auto dest: items_of_size)

text \<open>Modelled from the spec: the collection of all document ids of the walked tree in
  traversal order, each with its path (section 4.1, the whole-tree check).\<close>

fun tree_leaves_node :: "path \<Rightarrow> NavigationNode \<Rightarrow> (string \<times> path) list"
  and tree_leaves_items :: "path \<Rightarrow> nat \<Rightarrow> NavigationNode list \<Rightarrow> (string \<times> path) list"
where
  "tree_leaves_node p (Leaf d) = [(d, p)]"
| "tree_leaves_node p (Category l ns) = tree_leaves_items (p @ [Key ''items'']) 0 ns"
| "tree_leaves_items p i [] = []"
| "tree_leaves_items p i (n # ns) =
     tree_leaves_node (p @ [Idx i]) n @ tree_leaves_items p (Suc i) ns"

text \<open>Modelled from the spec: the values that repeat among the collected ids. \<open>first_seen\<close>
  keeps every id once, in the order of first occurrence; an id repeats when it occurs at
  least twice.\<close>

fun first_seen :: "string list \<Rightarrow> string list" where
  "first_seen [] = []"
| "first_seen (d # ds) = d # filter (\<lambda>x. x \<noteq> d) (first_seen ds)"

definition repeated_ids :: "string list \<Rightarrow> string list" where
  "repeated_ids ds = filter (\<lambda>d. 2 \<le> count_list ds d) (first_seen ds)"

text \<open>Modelled from the spec: the duplicate check (section 4.1): one
  \<^verbatim>\<open>DuplicateDocumentId\<close> for every value that repeats, listing every path where it
  occurs; the errors are in the order in which the values first occur.\<close>

definition duplicate_errors :: "(string \<times> path) list \<Rightarrow> ValidationError list" where
  "duplicate_errors occ =
     map (\<lambda>d. DuplicateDocumentId d (map snd (filter (\<lambda>e. fst e = d) occ)))
       (repeated_ids (map fst occ))"

text \<open>
  Modelled from the spec: \<^verbatim>\<open>validate\<close> (section 4.1). The result is the validated tree, or
  the errors: the first structural error alone, or, when the walk succeeds, all duplicate
  errors together. The root must be a sequence, as the items of a category must be; a
  root of another shape is \<^verbatim>\<open>InvalidItems\<close> at the root path.
\<close>

definition validate :: "raw \<Rightarrow> ValidationError list + NavigationTree" where
  "validate r =
     (case r of
        RSeq xs \<Rightarrow>
          (case validate_items [] 0 xs of
             Inl e \<Rightarrow> Inl [e]
           | Inr t \<Rightarrow>
               (case duplicate_errors (tree_leaves_items [] 0 t) of
                  [] \<Rightarrow> Inr t
                | e # es \<Rightarrow> Inl (e # es)))
      | _ \<Rightarrow> Inl [InvalidItems []])"

text \<open>The errors of a result; none when it is a tree.\<close>

definition errors_of :: "ValidationError list + NavigationTree \<Rightarrow> ValidationError list" where
  "errors_of res = (case res of Inl es \<Rightarrow> es | Inr t \<Rightarrow> [])"

subsection \<open>What the specification asks of the validator\<close>

text \<open>
  Modelled from the spec: every structural defect of a configuration tree, in traversal
  order (depth first, left to right; a node before its items). Unlike the walk of
  \<^verbatim>\<open>validate\<close>, nothing stops the enumeration.
\<close>

function defects_node :: "path \<Rightarrow> raw \<Rightarrow> ValidationError list"
  and defects_items :: "path \<Rightarrow> nat \<Rightarrow> raw list \<Rightarrow> ValidationError list"
where
  "defects_node p (RStr s) = (if s = [] then [EmptyDocumentId p] else [])"
| "defects_node p (RMap kvs) =
     (if \<not> is_category kvs then [MalformedNode p malformed_reason]
      else (case label_of kvs of
              None \<Rightarrow> [EmptyLabel p]
            | Some l \<Rightarrow> (if l = [] then [EmptyLabel p] else []))
         @ (case items_of kvs of
              None \<Rightarrow> [InvalidItems p]
            | Some xs \<Rightarrow> defects_items (p @ [Key ''items'']) 0 xs))"
| "defects_node p (RSeq xs) = [MalformedNode p malformed_reason]"
| "defects_node p (RNum n) = [MalformedNode p malformed_reason]"
| "defects_node p (RBool b) = [MalformedNode p malformed_reason]"
| "defects_node p RNull = [MalformedNode p malformed_reason]"
| "defects_items p i [] = []"
| "defects_items p i (x # xs) = defects_node (p @ [Idx i]) x @ defects_items p (Suc i) xs"
  by pat_completeness auto
termination
  by (relation "measure (\<lambda>a. case a of Inl (p, r) \<Rightarrow> 2 * size r
                                   | Inr (p, i, xs) \<Rightarrow> 2 * size_list size xs + 1)")
     (auto dest: items_of_size)

definition defects :: "raw \<Rightarrow> ValidationError list" where
  "defects r = (case r of RSeq xs \<Rightarrow> defects_items [] 0 xs | _ \<Rightarrow> [InvalidItems []])"

text \<open>
  Modelled from the spec: a tree mirrors a configuration value (section 4.1, result
  guarantees): a leaf stands for the plain string of its document id, a category for a
  mapping with the same label whose items it mirrors one by one, in the same order.
\<close>

fun mirrors_node :: "NavigationNode \<Rightarrow> raw \<Rightarrow> bool"
  and mirrors_items :: "NavigationNode list \<Rightarrow> raw list \<Rightarrow> bool"
where
  "mirrors_node (Leaf d) r = (r = RStr d)"
| "mirrors_node (Category l ns) r =
     (case r of
        RMap kvs \<Rightarrow>
          label_of kvs = Some l
          \<and> (case items_of kvs of Some xs \<Rightarrow> mirrors_items ns xs | None \<Rightarrow> False)
      | _ \<Rightarrow> False)"
| "mirrors_items [] xs = (xs = [])"
| "mirrors_items (n # ns) xs =
     (case xs of [] \<Rightarrow> False | x # xs' \<Rightarrow> mirrors_node n x \<and> mirrors_items ns xs')"

section \<open>Encoding and decoding\<close>

text \<open>
  Modelled from the spec: \<^verbatim>\<open>encode\<close> and \<^verbatim>\<open>decode\<close> (sections 6 and 8, P1) have no source
  file. The specification mandates no wire format and names a JSON-like structured-data
  encoding as sufficient; that is the format modelled here, as text without white space:
  a string between double quotes, with a backslash before every double quote and
  backslash in it, an array between brackets and an object between braces, their entries
  separated by commas.
\<close>

definition dquote :: char where "dquote = CHR 0x22"
definition backslash :: char where "backslash = CHR 0x5C"

text \<open>Modelled from the spec: the text of a string in the JSON-like encoding.\<close>

fun escape :: "string \<Rightarrow> string" where
  "escape [] = []"
| "escape (c # cs) =
     (if c = dquote \<or> c = backslash then backslash # c # escape cs else c # escape cs)"

definition encode_string :: "string \<Rightarrow> string" where
  "encode_string s = dquote # escape s @ [dquote]"

text \<open>Modelled from the spec: \<^verbatim>\<open>encode\<close>. A leaf is written as the string of its document
  id, a category as an object with the keys \<^verbatim>\<open>label\<close> and \<^verbatim>\<open>items\<close> of the schema of
  section 6, the tree as the array of its nodes. \<open>encode_items\<close> writes the entries of an
  array and its closing bracket.\<close>

fun encode_node :: "NavigationNode \<Rightarrow> string"
  and encode_items :: "NavigationNode list \<Rightarrow> string"
where
  "encode_node (Leaf d) = encode_string d"
| "encode_node (Category l ns) =
     ''{'' @ encode_string ''label'' @ '':'' @ encode_string l @ '',''
       @ encode_string ''items'' @ '':['' @ encode_items ns @ ''}''"
| "encode_items [] = '']''"
| "encode_items [n] = encode_node n @ '']''"
| "encode_items (n # m # ns) = encode_node n @ '','' @ encode_items (m # ns)"

definition encode :: "NavigationTree \<Rightarrow> string" where
  "encode t = ''['' @ encode_items t"

text \<open>Modelled from the spec: \<^verbatim>\<open>decode\<close>, a recursive-descent reader of the JSON-like
  text. \<open>parse_string\<close> reads a string after its opening quote, up to the closing one.\<close>

fun parse_string :: "string \<Rightarrow> (string \<times> string) option" where
  "parse_string [] = None"
| "parse_string (c # cs) =
     (if c = dquote then Some ([], cs)
      else if c = backslash then
        (case cs of
           [] \<Rightarrow> None
         | d # ds \<Rightarrow> map_option (\<lambda>(s, rest). (d # s, rest)) (parse_string ds))
      else map_option (\<lambda>(s, rest). (c # s, rest)) (parse_string cs))"

text \<open>
  Modelled from the spec: the reader of values, of the entries of an array and of the
  members of an object; each returns what it read and the rest of the text, or \<open>None\<close>
  when the text is not an encoding. The first argument bounds the number of nested calls;
  \<open>decode\<close> starts it at the length of the text, which is always enough for the text of a
  tree, so that \<open>decode\<close> is total.
\<close>

fun parse_value :: "nat \<Rightarrow> string \<Rightarrow> (raw \<times> string) option"
  and parse_elems :: "nat \<Rightarrow> string \<Rightarrow> (raw list \<times> string) option"
  and parse_members :: "nat \<Rightarrow> string \<Rightarrow> ((string \<times> raw) list \<times> string) option"
where
  "parse_value 0 cs = None"
| "parse_value (Suc n) [] = None"
| "parse_value (Suc n) (c # cs) =
     (if c = dquote then map_option (\<lambda>(s, rest). (RStr s, rest)) (parse_string cs)
      else if c = CHR ''['' then
        (case cs of
           [] \<Rightarrow> None
         | d # ds \<Rightarrow>
             if d = CHR '']'' then Some (RSeq [], ds)
             else map_option (\<lambda>(xs, rest). (RSeq xs, rest)) (parse_elems n cs))
      else if c = CHR ''{'' then
        (case cs of
           [] \<Rightarrow> None
         | d # ds \<Rightarrow>
             if d = CHR ''}'' then Some (RMap [], ds)
             else map_option (\<lambda>(kvs, rest). (RMap kvs, rest)) (parse_members n cs))
      else None)"
| "parse_elems 0 cs = None"
| "parse_elems (Suc n) cs =
     (case parse_value n cs of
        None \<Rightarrow> None
      | Some (x, rest) \<Rightarrow>
          (case rest of
             [] \<Rightarrow> None
           | d # ds \<Rightarrow>
               if d = CHR '','' then map_option (\<lambda>(xs, rest'). (x # xs, rest')) (parse_elems n ds)
               else if d = CHR '']'' then Some ([x], ds)
               else None))"
| "parse_members 0 cs = None"
| "parse_members (Suc n) [] = None"
| "parse_members (Suc n) (c # cs) =
     (if c \<noteq> dquote then None
      else case parse_string cs of
        None \<Rightarrow> None
      | Some (k, rest) \<Rightarrow>
          (case rest of
             [] \<Rightarrow> None
           | d # ds \<Rightarrow>
               if d \<noteq> CHR '':'' then None
               else (case parse_value n ds of
                 None \<Rightarrow> None
               | Some (v, rest') \<Rightarrow>
                   (case rest' of
                      [] \<Rightarrow> None
                    | e # es \<Rightarrow>
                        if e = CHR '','' then
                          map_option (\<lambda>(kvs, rest''). ((k, v) # kvs, rest'')) (parse_members n es)
                        else if e = CHR ''}'' then Some ([(k, v)], es)
                        else None))))"

text \<open>Modelled from the spec: \<^verbatim>\<open>decode\<close> reads one value and accepts it when nothing is
  left of the text.\<close>

definition decode :: "string \<Rightarrow> raw option" where
  "decode s = (case parse_value (length s) s of Some (r, []) \<Rightarrow> Some r | _ \<Rightarrow> None)"

text \<open>The configuration value that the text of a tree stands for.\<close>

fun raw_of_node :: "NavigationNode \<Rightarrow> raw"
  and raw_of_items :: "NavigationNode list \<Rightarrow> raw list"
where
  "raw_of_node (Leaf d) = RStr d"
| "raw_of_node (Category l ns) = RMap [(''label'', RStr l), (''items'', RSeq (raw_of_items ns))]"
| "raw_of_items [] = []"
| "raw_of_items (n # ns) = raw_of_node n # raw_of_items ns"

text \<open>Modelled from the spec: a valid tree (sections 3 and 6): every document id and
  every label is non-empty, and no document id occurs twice.\<close>

fun valid_node :: "NavigationNode \<Rightarrow> bool"
  and valid_items :: "NavigationNode list \<Rightarrow> bool"
where
  "valid_node (Leaf d) = (d \<noteq> [])"
| "valid_node (Category l ns) = (l \<noteq> [] \<and> valid_items ns)"
| "valid_items [] = True"
| "valid_items (n # ns) = (valid_node n \<and> valid_items ns)"

definition valid_tree :: "NavigationTree \<Rightarrow> bool" where
  "valid_tree t \<longleftrightarrow> valid_items t \<and> distinct (map fst (tree_leaves_items [] 0 t))"

section \<open>The walk and the defects of a tree\<close>

lemma walk_defects:
  "(case defects_node p r of
      [] \<Rightarrow> (\<exists>n. validate_node p r = Inr n)
    | e # es \<Rightarrow> validate_node p r = Inl e)"
  "(case defects_items p i xs of
      [] \<Rightarrow> (\<exists>ns. validate_items p i xs = Inr ns)
    | e # es \<Rightarrow> validate_items p i xs = Inl e)"
proof (induction p r and p i xs rule: validate_node_validate_items.induct)
  case (2 p kvs)
  show ?case
  proof (cases "is_category kvs")
    case cat: True
    show ?thesis
    proof (cases "label_of kvs")
      case None
      with cat show ?thesis by (simp split: option.splits)
    next
      case (Some l)
      show ?thesis
      proof (cases "l = []")
        case True
        with cat Some show ?thesis by simp
      next
        case ne: False
        show ?thesis
        proof (cases "items_of kvs")
          case None
          with cat Some ne show ?thesis by simp
        next
          case (Some xs)
          from "2.IH" [OF _ \<open>label_of kvs = Some l\<close> ne Some] cat
          have "case defects_items (p @ [Key ''items'']) 0 xs of
                  [] \<Rightarrow> \<exists>ns. validate_items (p @ [Key ''items'']) 0 xs = Inr ns
                | e # es \<Rightarrow> validate_items (p @ [Key ''items'']) 0 xs = Inl e"
            by simp
          with cat \<open>label_of kvs = Some l\<close> ne Some show ?thesis
            by (auto split: list.splits)
        qed
      qed
    qed
  next
    case False
    then show ?thesis by simp
  qed
next
  case (8 p i x xs)
  show ?case
  proof (cases "defects_node (p @ [Idx i]) x")
    case Nil
    with "8.IH"(1) obtain n where n: "validate_node (p @ [Idx i]) x = Inr n"
      by auto
    from "8.IH"(2) [OF n] Nil n show ?thesis
      by (auto split: list.splits)
  next
    case (Cons e es)
    with "8.IH"(1) show ?thesis by simp
  qed
qed simp_all

lemma walk_leaves:
  "validate_node p r = Inr n \<Longrightarrow> tree_leaves_node p n = leaves_node p r"
  "validate_items p i xs = Inr ns \<Longrightarrow> tree_leaves_items p i ns = leaves_items p i xs"
proof (induction p r and p i xs arbitrary: n and ns rule: validate_node_validate_items.induct)
  case (2 p kvs)
  then show ?case
    by (auto split: option.splits if_splits sum.splits)
next
  case (8 p i x xs)
  then show ?case
    by (auto split: sum.splits)
qed (auto split: if_splits)

lemma walk_mirrors:
  "validate_node p r = Inr n \<Longrightarrow> mirrors_node n r"
  "validate_items p i xs = Inr ns \<Longrightarrow> mirrors_items ns xs"
proof (induction p r and p i xs arbitrary: n and ns rule: validate_node_validate_items.induct)
  case (2 p kvs)
  then show ?case
    by (auto split: option.splits if_splits sum.splits)
next
  case (8 p i x xs)
  then show ?case
    by (auto split: sum.splits)
qed (auto split: if_splits)

lemma walk_structural:
  "validate_node p r = Inl e \<Longrightarrow> is_structural e"
  "validate_items p i xs = Inl e \<Longrightarrow> is_structural e"
proof (induction p r and p i xs rule: validate_node_validate_items.induct)
  case (2 p kvs)
  then show ?case
    by (auto split: option.splits if_splits sum.splits)
next
  case (8 p i x xs)
  then show ?case
    by (auto split: sum.splits)
qed (auto split: if_splits)

lemma well_formed_no_defects:
  "well_formed_node r \<Longrightarrow> defects_node p r = []"
  "list_all well_formed_node xs \<Longrightarrow> defects_items p i xs = []"
proof (induction p r and p i xs rule: defects_node_defects_items.induct)
  case (2 p kvs)
  then show ?case
    by (auto split: option.splits simp: is_category_def)
qed auto

subsection \<open>Paths in traversal order\<close>

lemma seg_less_irrefl [simp]: "\<not> seg_less s s"
  by (cases s) auto

lemma path_less_irrefl [simp]: "\<not> path_less p p"
  by (induction p) auto

lemma path_less_append [simp]: "path_less (p @ a) (p @ b) = path_less a b"
  by (induction p) auto

lemma path_less_extend [simp]: "path_less p (p @ s # q)"
  using path_less_append [of p "[]" "s # q"] by simp

lemma path_le_append [simp]: "path_le (p @ a) (p @ b) = path_le a b"
  by (simp add: path_le_def)

lemma path_le_extend [simp]: "path_le p (p @ q)"
  by (cases q) (simp_all add: path_le_def)

lemma leaves_paths:
  "e \<in> set (leaves_node p r) \<Longrightarrow> \<exists>q. snd e = p @ q"
  "e \<in> set (leaves_items p i xs) \<Longrightarrow> \<exists>j q. i \<le> j \<and> snd e = p @ Idx j # q"
proof (induction p r and p i xs rule: leaves_node_leaves_items.induct)
  case (2 p kvs)
  show ?case
  proof (cases "items_of kvs")
    case None
    with "2.prems" show ?thesis by simp
  next
    case (Some xs)
    with "2.prems" have "e \<in> set (leaves_items (p @ [Key ''items'']) 0 xs)" by simp
    from "2.IH" [OF Some this] show ?thesis by auto
  qed
next
  case (8 p i x xs)
  from "8.prems" consider "e \<in> set (leaves_node (p @ [Idx i]) x)"
    | "e \<in> set (leaves_items p (Suc i) xs)" by auto
  then show ?case
  proof cases
    case 1
    from "8.IH"(1) [OF 1] show ?thesis by auto
  next
    case 2
    from "8.IH"(2) [OF 2] show ?thesis by (meson Suc_leD)
  qed
qed auto

lemma leaves_sorted:
  "sorted_wrt (\<lambda>a b. path_less (snd a) (snd b)) (leaves_node p r)"
  "sorted_wrt (\<lambda>a b. path_less (snd a) (snd b)) (leaves_items p i xs)"
proof (induction p r and p i xs rule: leaves_node_leaves_items.induct)
  case (2 p kvs)
  then show ?case by (simp split: option.splits)
next
  case (8 p i x xs)
  have "path_less (snd a) (snd b)"
    if a: "a \<in> set (leaves_node (p @ [Idx i]) x)" and b: "b \<in> set (leaves_items p (Suc i) xs)"
    for a b
  proof -
    from leaves_paths(1) [OF a] obtain q where q: "snd a = p @ Idx i # q" by auto
    from leaves_paths(2) [OF b] obtain j q' where j: "Suc i \<le> j" "snd b = p @ Idx j # q'"
      by auto
    from q j show ?thesis by simp
  qed
  with 8 show ?case by (simp add: sorted_wrt_append)
qed simp_all

lemma sorted_wrt_path_less_distinct: "sorted_wrt path_less ps \<Longrightarrow> distinct ps"
  by (induction ps) auto

lemma leaf_paths_distinct: "distinct (map snd (leaf_paths r))"
proof -
  have "sorted_wrt (\<lambda>a b. path_less (snd a) (snd b)) (leaf_paths r)"
    by (cases r) (simp_all add: leaf_paths_def leaves_sorted(2))
  then have "sorted_wrt path_less (map snd (leaf_paths r))"
    by (simp add: sorted_wrt_map)
  then show ?thesis by (rule sorted_wrt_path_less_distinct)
qed

lemma defects_paths:
  "e \<in> set (defects_node p r) \<Longrightarrow> \<exists>q. error_path e = p @ q"
  "e \<in> set (defects_items p i xs) \<Longrightarrow> \<exists>j q. i \<le> j \<and> error_path e = p @ Idx j # q"
proof (induction p r and p i xs rule: defects_node_defects_items.induct)
  case (2 p kvs)
  then show ?case
    by (fastforce split: option.splits if_splits)
next
  case (8 p i x xs)
  from "8.prems" consider "e \<in> set (defects_node (p @ [Idx i]) x)"
    | "e \<in> set (defects_items p (Suc i) xs)" by auto
  then show ?case
  proof cases
    case 1
    from "8.IH"(1) [OF 1] show ?thesis by auto
  next
    case 2
    from "8.IH"(2) [OF 2] show ?thesis by (meson Suc_leD)
  qed
qed (auto split: if_splits)

lemma defects_sorted:
  "sorted_wrt (\<lambda>a b. path_le (error_path a) (error_path b)) (defects_node p r)"
  "sorted_wrt (\<lambda>a b. path_le (error_path a) (error_path b)) (defects_items p i xs)"
proof (induction p r and p i xs rule: defects_node_defects_items.induct)
  case (2 p kvs)
  have "path_le p (error_path b)" if "b \<in> set (defects_items (p @ [Key ''items'']) 0 xs)" for b xs
  proof -
    from defects_paths(2) [OF that] obtain j q where "error_path b = p @ Key ''items'' # Idx j # q"
      by auto
    then show ?thesis by (simp add: path_le_def)
  qed
  with 2 show ?case
    by (auto simp: sorted_wrt_append path_le_def split: option.splits)
next
  case (8 p i x xs)
  have "path_le (error_path a) (error_path b)"
    if a: "a \<in> set (defects_node (p @ [Idx i]) x)" and b: "b \<in> set (defects_items p (Suc i) xs)"
    for a b
  proof -
    from defects_paths(1) [OF a] obtain q where q: "error_path a = p @ Idx i # q" by auto
    from defects_paths(2) [OF b] obtain j q' where j: "Suc i \<le> j" "error_path b = p @ Idx j # q'"
      by auto
    from q j show ?thesis by (simp add: path_le_def)
  qed
  with 8 show ?case by (simp add: sorted_wrt_append)
qed simp_all

subsection \<open>Repeated ids\<close>

lemma first_seen_set [simp]: "set (first_seen ds) = set ds"
  by (induction ds) auto

lemma first_seen_distinct [simp]: "distinct (first_seen ds)"
  by (induction ds) auto

lemma distinct_count_list: "distinct ds \<longleftrightarrow> (\<forall>d. count_list ds d \<le> 1)"
proof (induction ds)
  case Nil
  then show ?case by simp
next
  case (Cons a ds)
  show ?case
  proof
    assume "distinct (a # ds)"
    with Cons show "\<forall>d. count_list (a # ds) d \<le> 1"
      by (auto simp: count_list_0_iff)
  next
    assume h: "\<forall>d. count_list (a # ds) d \<le> 1"
    then have "count_list (a # ds) a \<le> 1" by blast
    then have "a \<notin> set ds" by (simp add: count_list_0_iff)
    moreover have "\<forall>d. count_list ds d \<le> 1"
    proof
      fix d
      from h have "count_list (a # ds) d \<le> 1" by blast
      then show "count_list ds d \<le> 1" by (simp split: if_splits)
    qed
    ultimately show "distinct (a # ds)" using Cons by simp
  qed
qed

lemma set_repeated_ids: "set (repeated_ids ds) = {d. 2 \<le> count_list ds d}"
proof -
  have "2 \<le> count_list ds d \<Longrightarrow> d \<in> set ds" for d
    by (rule ccontr) (simp add: count_list_0_iff [symmetric])
  then show ?thesis
    by (auto simp: repeated_ids_def)
qed

lemma distinct_repeated_ids: "distinct (repeated_ids ds)"
  by (simp add: repeated_ids_def)

lemma repeated_ids_Nil: "repeated_ids ds = [] \<longleftrightarrow> distinct ds"
proof -
  have "repeated_ids ds = [] \<longleftrightarrow> set (repeated_ids ds) = {}" by simp
  also have "\<dots> \<longleftrightarrow> (\<forall>d. \<not> 2 \<le> count_list ds d)"
    by (simp only: set_repeated_ids) blast
  also have "\<dots> \<longleftrightarrow> (\<forall>d. count_list ds d \<le> 1)"
    by (auto simp: not_le less_Suc_eq_le numeral_2_eq_2)
  finally show ?thesis by (simp add: distinct_count_list)
qed

lemma duplicate_errors_Nil: "duplicate_errors occ = [] \<longleftrightarrow> distinct (map fst occ)"
  by (simp add: duplicate_errors_def repeated_ids_Nil)

lemma set_duplicate_errors:
  "set (duplicate_errors occ) =
     {DuplicateDocumentId d (map snd (filter (\<lambda>e. fst e = d) occ)) | d.
        2 \<le> count_list (map fst occ) d}"
  by (auto simp: duplicate_errors_def set_repeated_ids)

lemma distinct_duplicate_errors: "distinct (duplicate_errors occ)"
  by (simp add: duplicate_errors_def distinct_map distinct_repeated_ids inj_on_def)

lemma duplicate_errors_all: "list_all is_duplicate (duplicate_errors occ)"
  by (simp add: duplicate_errors_def list_all_iff)

subsection \<open>A walk without defects\<close>

lemma validate_walk_ok:
  assumes "defects r = []"
  obtains xs t where "r = RSeq xs" and "validate_items [] 0 xs = Inr t"
    and "tree_leaves_items [] 0 t = leaf_paths r"
proof (cases r)
  case (RSeq xs)
  with assms have "defects_items [] 0 xs = []" by (simp add: defects_def)
  with walk_defects(2) [of "[]" 0 xs] obtain t where t: "validate_items [] 0 xs = Inr t"
    by auto
  from walk_leaves(2) [OF t] RSeq have "tree_leaves_items [] 0 t = leaf_paths r"
    by (simp add: leaf_paths_def)
  with RSeq t that show ?thesis by blast
qed (use assms in \<open>simp_all add: defects_def\<close>)

lemma validate_dups:
  assumes "defects r = []"
  shows "errors_of (validate r) = duplicate_errors (leaf_paths r)"
proof -
  from assms obtain xs t where "r = RSeq xs" "validate_items [] 0 xs = Inr t"
    "tree_leaves_items [] 0 t = leaf_paths r"
    by (rule validate_walk_ok)
  then show ?thesis
    by (simp add: validate_def errors_of_def split: list.splits)
qed

lemma validate_ok:
  assumes "defects r = []" and "distinct (leaf_ids r)"
  shows "\<exists>t. validate r = Inr t"
proof -
  from assms(1) obtain xs t where "r = RSeq xs" "validate_items [] 0 xs = Inr t"
    "tree_leaves_items [] 0 t = leaf_paths r"
    by (rule validate_walk_ok)
  moreover from assms(2) have "duplicate_errors (leaf_paths r) = []"
    by (simp add: duplicate_errors_Nil leaf_ids_def)
  ultimately show ?thesis
    by (simp add: validate_def)
qed

lemma mirrors_unique:
  "mirrors_node n r \<Longrightarrow> mirrors_node n' r \<Longrightarrow> n' = n"
  "mirrors_items ns xs \<Longrightarrow> mirrors_items ns' xs \<Longrightarrow> ns' = ns"
proof (induction n r and ns xs arbitrary: n' and ns' rule: mirrors_node_mirrors_items.induct)
  case (1 d r)
  then show ?case by (cases n') (auto split: raw.splits)
next
  case (2 l ns r)
  then show ?case
    by (cases n') (auto split: raw.splits option.splits)
next
  case (3 xs)
  then show ?case by (cases ns') auto
next
  case (4 n ns xs)
  then show ?case
    by (cases ns') (auto split: list.splits)
qed

subsection \<open>Reading back the text of a tree\<close>

lemma parse_string_escape:
  "parse_string (escape s @ dquote # rest) = Some (s, rest)"
  by (induction s) (auto simp: dquote_def backslash_def)

lemma walk_raw_of:
  "valid_node n \<Longrightarrow> validate_node p (raw_of_node n) = Inr n"
  "valid_items ns \<Longrightarrow> validate_items p i (raw_of_items ns) = Inr ns"
  by (induction n and ns arbitrary: p and p i rule: raw_of_node_raw_of_items.induct)
     (simp_all add: field_defs)

lemma dquote_neq:
  "CHR ''{'' \<noteq> dquote" "CHR ''['' \<noteq> dquote" "dquote \<noteq> CHR ''}''" "dquote \<noteq> CHR '']''"
  "dquote \<noteq> CHR ''{''" "dquote \<noteq> CHR ''[''"
  by (simp_all add: dquote_def)

lemma encode_node_hd: "\<exists>c cs. encode_node n = c # cs \<and> c \<noteq> CHR '']''"
  by (cases n) (simp_all add: encode_string_def dquote_neq)

lemma encode_items_hd:
  assumes "ns \<noteq> []"
  shows "\<exists>c cs. encode_items ns = c # cs \<and> c \<noteq> CHR '']''"
proof -
  from assms obtain n ms where ns: "ns = n # ms" by (cases ns) auto
  from encode_node_hd [of n] obtain c cs where "encode_node n = c # cs" "c \<noteq> CHR '']''"
    by blast
  with ns show ?thesis by (cases ms) auto
qed

lemma parse_value_string:
  "parse_value (Suc k) (dquote # escape s @ dquote # rest) = Some (RStr s, rest)"
  by (simp add: parse_string_escape)

lemma parse_value_array:
  assumes "ns \<noteq> [] \<Longrightarrow> parse_elems k (encode_items ns @ rest) = Some (raw_of_items ns, rest)"
  shows "parse_value (Suc k) (CHR ''['' # encode_items ns @ rest) = Some (RSeq (raw_of_items ns), rest)"
proof (cases "ns = []")
  case True
  then show ?thesis by (simp add: dquote_neq)
next
  case False
  from encode_items_hd [OF False] obtain c cs where
    c: "encode_items ns = c # cs" "c \<noteq> CHR '']''" by blast
  from assms [OF False] c show ?thesis
    by (simp add: dquote_neq)
qed

lemma encode_category:
  "encode_node (Category l ns) @ rest =
     CHR ''{'' # dquote # escape ''label'' @ dquote # CHR '':'' # dquote # escape l @ dquote #
       CHR '','' # dquote # escape ''items'' @ dquote # CHR '':'' # CHR ''['' #
       encode_items ns @ CHR ''}'' # rest"
  by (simp add: encode_string_def del: escape.simps)

lemma length_encode_category:
  "length (encode_node (Category l ns)) = 22 + length (escape l) + length (encode_items ns)"
  by (simp add: encode_string_def dquote_def backslash_def)

lemma parse_value_category:
  assumes "parse_value (Suc k) (CHR ''['' # encode_items ns @ CHR ''}'' # rest)
             = Some (RSeq (raw_of_items ns), CHR ''}'' # rest)"
  shows "parse_value (Suc (Suc (Suc (Suc k)))) (encode_node (Category l ns) @ rest)
           = Some (raw_of_node (Category l ns), rest)"
proof -
  have m2: "parse_members (Suc (Suc k))
       (dquote # escape ''items'' @ dquote # CHR '':'' # CHR ''['' # encode_items ns @ CHR ''}'' # rest)
     = Some ([(''items'', RSeq (raw_of_items ns))], rest)"
    using assms by (simp add: parse_string_escape del: escape.simps parse_value.simps)
  have m1: "parse_members (Suc (Suc (Suc k)))
       (dquote # escape ''label'' @ dquote # CHR '':'' # dquote # escape l @ dquote #
        CHR '','' # dquote # escape ''items'' @ dquote # CHR '':'' # CHR ''['' #
        encode_items ns @ CHR ''}'' # rest)
     = Some ([(''label'', RStr l), (''items'', RSeq (raw_of_items ns))], rest)"
    by (subst parse_members.simps(3))
       (simp add: parse_string_escape parse_value_string m2
          del: escape.simps parse_value.simps parse_members.simps)
  show ?thesis
    unfolding encode_category using m1
    by (simp add: dquote_neq del: escape.simps parse_members.simps)
qed

lemma parse_encode:
  "length (encode_node n) \<le> k \<Longrightarrow>
     parse_value k (encode_node n @ rest) = Some (raw_of_node n, rest)"
  "ns \<noteq> [] \<Longrightarrow> length (encode_items ns) \<le> k \<Longrightarrow>
     parse_elems k (encode_items ns @ rest) = Some (raw_of_items ns, rest)"
proof (induction n and ns arbitrary: k rest and k rest rule: encode_node_encode_items.induct)
  case (1 d)
  then obtain k' where "k = Suc k'" by (cases k) (auto simp: encode_string_def)
  then show ?case
    by (simp add: encode_string_def parse_string_escape)
next
  case (2 l ns)
  from "2.prems" have "4 + length (encode_items ns) \<le> k"
    by (simp add: length_encode_category)
  then have "k = Suc (Suc (Suc (Suc (k - 4))))" and "length (encode_items ns) \<le> k - 4"
    by simp_all
  then obtain k4 where k: "k = Suc (Suc (Suc (Suc k4)))" and l: "length (encode_items ns) \<le> k4"
    by blast
  have "parse_value (Suc k4) (CHR ''['' # encode_items ns @ CHR ''}'' # rest)
          = Some (RSeq (raw_of_items ns), CHR ''}'' # rest)"
    by (rule parse_value_array) (rule "2.IH" [OF _ l])
  then show ?case unfolding k by (rule parse_value_category)
next
  case 3
  then show ?case by simp
next
  case (4 n)
  then obtain k' where k: "k = Suc k'" by (cases k) auto
  with 4 have "length (encode_node n) \<le> k'" by simp
  from "4.IH" [OF this] k show ?case by simp
next
  case (5 n m ns)
  then obtain k' where k: "k = Suc k'" by (cases k) auto
  with 5 have l1: "length (encode_node n) \<le> k'" and l2: "length (encode_items (m # ns)) \<le> k'"
    by simp_all
  from "5.IH"(1) [OF l1] "5.IH"(2) [OF _ l2] k show ?case by simp
qed

section \<open>Properties of the validator\<close>

text \<open>
  C1: when the input has a structural defect, \<^verbatim>\<open>validate\<close> returns exactly the first one
  in traversal order (depth first, left to right), and nothing else: the walk fails fast.
  The error returned is structural, and its path comes in traversal order no later than
  the path of every other defect of the input.
\<close>

theorem validate_first_structural_error:
  assumes "defects r = e # es"
  shows "validate r = Inl [e] \<and> is_structural e
     \<and> list_all (\<lambda>e'. path_le (error_path e) (error_path e')) es"
proof -
  have "sorted_wrt (\<lambda>a b. path_le (error_path a) (error_path b)) (defects r)"
    by (cases r) (simp_all add: defects_def defects_sorted(2))
  with assms have first: "list_all (\<lambda>e'. path_le (error_path e) (error_path e')) es"
    by (simp add: list_all_iff)
  show ?thesis
  proof (cases r)
    case (RSeq xs)
    with assms have "defects_items [] 0 xs = e # es" by (simp add: defects_def)
    with walk_defects(2) [of "[]" 0 xs] have w: "validate_items [] 0 xs = Inl e" by simp
    from walk_structural(2) [OF w] w RSeq first show ?thesis by (simp add: validate_def)
  qed (use assms in \<open>auto simp: defects_def validate_def\<close>)
qed

text \<open>
  The input \<^verbatim>\<open>["", {label: "Guides", items: [3]}]\<close> has two structural defects, an empty
  document id at \<^verbatim>\<open>root[0]\<close> and a malformed node at \<^verbatim>\<open>root[1].items[0]\<close>; the error at
  \<^verbatim>\<open>root[0]\<close> is the one returned.
\<close>

theorem validate_first_structural_error_witness:
  "defects (RSeq [RStr [], RMap [(''label'', RStr ''Guides''), (''items'', RSeq [RNum 3])]])
     = [EmptyDocumentId [Idx 0], MalformedNode [Idx 1, Key ''items'', Idx 0] malformed_reason]
   \<and> validate (RSeq [RStr [], RMap [(''label'', RStr ''Guides''), (''items'', RSeq [RNum 3])]])
     = Inl [EmptyDocumentId [Idx 0]]
   \<and> path_le [Idx 0] [Idx 1, Key ''items'', Idx 0]"
proof -
  have d: "defects (RSeq [RStr [], RMap [(''label'', RStr ''Guides''), (''items'', RSeq [RNum 3])]])
     = [EmptyDocumentId [Idx 0], MalformedNode [Idx 1, Key ''items'', Idx 0] malformed_reason]"
    by (simp add: defects_def field_defs)
  from validate_first_structural_error [OF d] d show ?thesis by simp
qed

text \<open>
  C2: when the input has no structural defect and some document id stands at two or more
  paths, \<^verbatim>\<open>validate\<close> fails with duplicate errors only: no error twice, and exactly one
  error for every id that occurs at least twice, listing all the paths where that id
  occurs, in traversal order. The leaves of the input stand at pairwise distinct paths, so
  an id occurs twice exactly when it stands at two distinct paths.
\<close>

theorem validate_duplicate_errors:
  assumes "defects r = []" and "\<not> distinct (leaf_ids r)"
  shows "\<exists>es. validate r = Inl es \<and> es \<noteq> [] \<and> distinct es
     \<and> set es = {DuplicateDocumentId d (map snd (filter (\<lambda>e. fst e = d) (leaf_paths r))) | d.
          2 \<le> count_list (leaf_ids r) d}
     \<and> distinct (map snd (leaf_paths r))"
proof -
  from assms(1) obtain xs t where r: "r = RSeq xs" "validate_items [] 0 xs = Inr t"
    "tree_leaves_items [] 0 t = leaf_paths r"
    by (rule validate_walk_ok)
  from assms(2) have ne: "duplicate_errors (leaf_paths r) \<noteq> []"
    by (simp add: duplicate_errors_Nil leaf_ids_def)
  with r have "validate r = Inl (duplicate_errors (leaf_paths r))"
    by (simp add: validate_def split: list.splits)
  with ne show ?thesis
    by (simp add: distinct_duplicate_errors set_duplicate_errors leaf_ids_def
          leaf_paths_distinct)
qed

text \<open>
  The id \<^verbatim>\<open>x\<close> at the three paths \<^verbatim>\<open>root[0]\<close>, \<^verbatim>\<open>root[1].items[0]\<close> and \<^verbatim>\<open>root[2]\<close>
  gives one error with the three paths.
\<close>

theorem validate_duplicate_errors_witness:
  "defects (RSeq [RStr ''x'',
              RMap [(''label'', RStr ''G''), (''items'', RSeq [RStr ''x'', RStr ''y''])],
              RStr ''x'']) = []
   \<and> \<not> distinct (leaf_ids (RSeq [RStr ''x'',
              RMap [(''label'', RStr ''G''), (''items'', RSeq [RStr ''x'', RStr ''y''])],
              RStr ''x'']))
   \<and> validate (RSeq [RStr ''x'',
              RMap [(''label'', RStr ''G''), (''items'', RSeq [RStr ''x'', RStr ''y''])],
              RStr ''x''])
     = Inl [DuplicateDocumentId ''x'' [[Idx 0], [Idx 1, Key ''items'', Idx 0], [Idx 2]]]"
  using validate_duplicate_errors
    [of "RSeq [RStr ''x'',
              RMap [(''label'', RStr ''G''), (''items'', RSeq [RStr ''x'', RStr ''y''])],
              RStr ''x'']"]
  by (simp add: defects_def leaf_ids_def leaf_paths_def validate_def field_defs duplicate_errors_def repeated_ids_def)

text \<open>
  When \<^verbatim>\<open>validate\<close> succeeds, the input is a sequence and the returned tree mirrors it:
  node for node in the same order and nesting, a leaf for each plain string with that
  string as document id, a category for each mapping with the same label and the same
  items; and it is the only tree that mirrors the input. This is a statement about the
  value returned. Whether the tree shares storage with the input is not one: values have
  no storage here.
\<close>

lemma validate_mirrors_input:
  assumes "validate r = Inr t"
  shows "\<exists>xs. r = RSeq xs \<and> mirrors_items t xs \<and> (\<forall>t'. mirrors_items t' xs \<longrightarrow> t' = t)"
proof (cases r)
  case (RSeq xs)
  with assms have "validate_items [] 0 xs = Inr t"
    by (auto simp: validate_def split: sum.splits list.splits)
  then have "mirrors_items t xs" by (rule walk_mirrors(2))
  with RSeq show ?thesis by (auto dest: mirrors_unique(2))
qed (use assms in \<open>simp_all add: validate_def\<close>)

text \<open>Scenario A: \<^verbatim>\<open>["index", {label: "Guides", items: ["setup", "usage"]}]\<close>.\<close>

lemma validate_mirrors_scenario_A:
  "validate (RSeq [RStr ''index'',
       RMap [(''label'', RStr ''Guides''), (''items'', RSeq [RStr ''setup'', RStr ''usage''])]])
     = Inr [Leaf ''index'', Category ''Guides'' [Leaf ''setup'', Leaf ''usage'']]
   \<and> mirrors_items [Leaf ''index'', Category ''Guides'' [Leaf ''setup'', Leaf ''usage'']]
       [RStr ''index'',
        RMap [(''label'', RStr ''Guides''), (''items'', RSeq [RStr ''setup'', RStr ''usage''])]]"
proof -
  have v: "validate (RSeq [RStr ''index'',
       RMap [(''label'', RStr ''Guides''), (''items'', RSeq [RStr ''setup'', RStr ''usage''])]])
     = Inr [Leaf ''index'', Category ''Guides'' [Leaf ''setup'', Leaf ''usage'']]"
    by (simp add: validate_def field_defs
          duplicate_errors_def repeated_ids_def)
  from validate_mirrors_input [OF v] v show ?thesis by simp
qed

lemma decode_encode: "decode (encode t) = Some (RSeq (raw_of_items t))"
proof -
  have "parse_value (Suc (length (encode_items t))) (CHR ''['' # encode_items t @ [])
          = Some (RSeq (raw_of_items t), [])"
    by (rule parse_value_array) (rule parse_encode(2), simp_all)
  then show ?thesis by (simp add: decode_def encode_def)
qed

text \<open>
  C4: for every valid tree, decoding its encoding gives the configuration value that
  mirrors the tree, and \<^verbatim>\<open>validate\<close> on the decoded value succeeds with the tree itself:
  encode, then decode, then validate is the identity on valid trees.
\<close>

theorem encode_decode_validate:
  assumes "valid_tree t"
  shows "\<exists>r. decode (encode t) = Some r \<and> validate r = Inr t
           \<and> r = RSeq (raw_of_items t) \<and> mirrors_items t (raw_of_items t)"
proof -
  from assms have v: "valid_items t" and d: "distinct (map fst (tree_leaves_items [] 0 t))"
    by (simp_all add: valid_tree_def)
  from v have w: "validate_items [] 0 (raw_of_items t) = Inr t" by (rule walk_raw_of(2))
  from d have "duplicate_errors (tree_leaves_items [] 0 t) = []"
    by (simp add: duplicate_errors_Nil)
  with w have "validate (RSeq (raw_of_items t)) = Inr t" by (simp add: validate_def)
  moreover from w have "mirrors_items t (raw_of_items t)" by (rule walk_mirrors(2))
  ultimately show ?thesis by (simp add: decode_encode)
qed

text \<open>The tree of scenario A.\<close>

theorem encode_decode_validate_witness:
  "valid_tree [Leaf ''index'', Category ''Guides'' [Leaf ''setup'', Leaf ''usage'']]
   \<and> decode (encode [Leaf ''index'', Category ''Guides'' [Leaf ''setup'', Leaf ''usage'']])
     = Some (RSeq [RStr ''index'',
         RMap [(''label'', RStr ''Guides''), (''items'', RSeq [RStr ''setup'', RStr ''usage''])]])
   \<and> validate (RSeq [RStr ''index'',
         RMap [(''label'', RStr ''Guides''), (''items'', RSeq [RStr ''setup'', RStr ''usage''])]])
     = Inr [Leaf ''index'', Category ''Guides'' [Leaf ''setup'', Leaf ''usage'']]"
proof -
  have v: "valid_tree [Leaf ''index'', Category ''Guides'' [Leaf ''setup'', Leaf ''usage'']]"
    by (simp add: valid_tree_def)
  from encode_decode_validate [OF v] v show ?thesis by auto
qed





text \<open>
  The three shapes of a result: the validated tree, or one structural error
  (\<^verbatim>\<open>MalformedNode\<close>, \<^verbatim>\<open>EmptyLabel\<close>, \<^verbatim>\<open>InvalidItems\<close> or \<^verbatim>\<open>EmptyDocumentId\<close>), or a
  non-empty list of \<^verbatim>\<open>DuplicateDocumentId\<close> errors.
\<close>

lemma validate_result_shapes:
  "(\<exists>t. validate r = Inr t)
   \<or> (\<exists>e. validate r = Inl [e] \<and> is_structural e)
   \<or> (\<exists>e es. validate r = Inl (e # es) \<and> list_all is_duplicate (e # es))"
proof (cases "defects r")
  case Nil
  then obtain xs t where r: "r = RSeq xs" "validate_items [] 0 xs = Inr t"
    "tree_leaves_items [] 0 t = leaf_paths r"
    by (rule validate_walk_ok)
  show ?thesis
  proof (cases "duplicate_errors (leaf_paths r)")
    case Nil
    with r show ?thesis by (simp add: validate_def)
  next
    case (Cons e es)
    with r have "validate r = Inl (e # es)" by (simp add: validate_def)
    moreover from duplicate_errors_all [of "leaf_paths r"] Cons
    have "list_all is_duplicate (e # es)" by simp
    ultimately show ?thesis by blast
  qed
next
  case (Cons e es)
  show ?thesis
  proof (cases r)
    case (RSeq xs)
    with Cons have "defects_items [] 0 xs = e # es" by (simp add: defects_def)
    with walk_defects(2) [of "[]" 0 xs] have w: "validate_items [] 0 xs = Inl e" by simp
    from walk_structural(2) [OF w] w RSeq show ?thesis by (simp add: validate_def)
  qed (simp_all add: validate_def)
qed

subsection \<open>The scenarios of the specification\<close>

text \<open>Scenario B: \<^verbatim>\<open>[{label: "", items: []}]\<close> fails with \<^verbatim>\<open>EmptyLabel\<close> at \<^verbatim>\<open>root[0]\<close>.\<close>

lemma scenario_B:
  "validate (RSeq [RMap [(''label'', RStr []), (''items'', RSeq [])]]) = Inl [EmptyLabel [Idx 0]]"
  by (simp add: validate_def field_defs)

text \<open>Scenario C: \<^verbatim>\<open>["a", "a"]\<close> fails with one duplicate error listing \<^verbatim>\<open>root[0]\<close> and
  \<^verbatim>\<open>root[1]\<close>.\<close>

lemma scenario_C:
  "validate (RSeq [RStr ''a'', RStr ''a'']) = Inl [DuplicateDocumentId ''a'' [[Idx 0], [Idx 1]]]"
  by (simp add: validate_def duplicate_errors_def repeated_ids_def)

text \<open>Scenario D: \<^verbatim>\<open>[{items: ["x"]}]\<close> has neither the discriminator nor a label, so the
  mapping is not a category: the rule taken here is \<^verbatim>\<open>MalformedNode\<close> when the label is
  absent from a mapping without discriminator, and \<^verbatim>\<open>EmptyLabel\<close> when a category has no
  non-empty string label.\<close>

lemma scenario_D:
  "validate (RSeq [RMap [(''items'', RSeq [RStr ''x''])]])
     = Inl [MalformedNode [Idx 0] malformed_reason]"
  "validate (RSeq [RMap [(''type'', RStr ''category''), (''items'', RSeq [RStr ''x''])]])
     = Inl [EmptyLabel [Idx 0]]"
  by (simp_all add: validate_def field_defs)

section \<open>The shipped sidebar\<close>

text \<open>
  C10: every category of \<^verbatim>\<open>someSidebar\<close> has a non-empty \<^verbatim>\<open>items\<close> array, categories
  are nested at most two deep, and every leaf is at depth at most three below the root
  sequence.
\<close>

theorem someSidebar_categories_shallow_nonempty:
  "categories_nonempty someSidebar
   \<and> category_depth someSidebar = 2
   \<and> list_all (\<lambda>d. d \<le> 3) (leaf_depths 0 someSidebar)"
  by (simp add: someSidebar_def items_of_def)

lemma module_exports_someSidebar:
  "(case module_exports of RMap kvs \<Rightarrow> field kvs ''someSidebar'' | _ \<Rightarrow> None) = Some someSidebar"
  by (simp add: module_exports_def)

lemma someSidebar_wf: "well_formed someSidebar"
  by (simp add: someSidebar_def well_formed_def field_defs)

lemma someSidebar_leaf_ids:
  "length (leaf_ids someSidebar) = 68" "distinct (leaf_ids someSidebar)"
  by (simp_all add: someSidebar_def leaf_ids_def leaf_paths_def items_of_def)

lemma well_formed_defects: "well_formed r \<Longrightarrow> defects r = []"
  by (cases r) (simp_all add: well_formed_def defects_def well_formed_no_defects(2))

text \<open>
  C8: every node of \<^verbatim>\<open>someSidebar\<close> is a non-empty string or a mapping with the
  discriminator \<^verbatim>\<open>type: 'category'\<close>, a non-empty label string and an items array; the
  tree has no structural defect, and every error \<^verbatim>\<open>validate\<close> could report on it is a
  duplicate error, none is structural.
\<close>

theorem someSidebar_well_formed:
  "well_formed someSidebar
   \<and> defects someSidebar = []
   \<and> list_all is_duplicate (errors_of (validate someSidebar))"
proof -
  have d: "defects someSidebar = []"
    using someSidebar_wf by (rule well_formed_defects)
  from validate_dups [OF d] duplicate_errors_all [of "leaf_paths someSidebar"]
  have "list_all is_duplicate (errors_of (validate someSidebar))" by simp
  with someSidebar_wf d show ?thesis by simp
qed

text \<open>
  C9, as the configuration has it: \<^verbatim>\<open>someSidebar\<close> has 68 leaves, their document ids are
  pairwise distinct, the duplicate check reports nothing and \<^verbatim>\<open>validate\<close> succeeds.
\<close>

theorem someSidebar_leaf_ids_distinct:
  "length (leaf_ids someSidebar) = 68
   \<and> distinct (leaf_ids someSidebar)
   \<and> duplicate_errors (leaf_paths someSidebar) = []
   \<and> (\<exists>t. validate someSidebar = Inr t)"
proof -
  have "defects someSidebar = []"
    using someSidebar_wf by (rule well_formed_defects)
  then have "\<exists>t. validate someSidebar = Inr t"
    using someSidebar_leaf_ids(2) by (rule validate_ok)
  moreover have "duplicate_errors (leaf_paths someSidebar) = []"
    using someSidebar_leaf_ids(2) by (simp add: duplicate_errors_Nil leaf_ids_def)
  ultimately show ?thesis using someSidebar_leaf_ids by simp
qed

text \<open>The number of leaves of \<^verbatim>\<open>someSidebar\<close> is not 66.\<close>

theorem someSidebar_leaf_count_not_66:
  "length (leaf_ids someSidebar) \<noteq> 66"
  by (simp add: someSidebar_def leaf_ids_def leaf_paths_def items_of_def)

end
